theory Spec2Isabelle
  imports Complex_Main
begin

section \<open>The sliding-window rate limiter of task02.py\<close>

text \<open>
  The class \<open>SlidingWindowRateLimiter\<close> keeps, for every user id, a deque of the time
  stamps of the admitted messages. The embedding passes the object explicitly: every
  method takes the limiter and returns its result together with the limiter as the
  method leaves it. Each call of \<open>time.perf_counter()\<close> is a parameter of the method
  that makes the call, in the order of the calls; \<open>record_message\<close> reads the clock
  twice (once inside \<open>can_send_message\<close>, once for the time stamp it appends) and so
  takes two readings. Python's floats are idealised as \<open>real\<close>: the claims are about
  the comparisons and the control flow, not about rounding.
\<close>

subsection \<open>Data\<close>

text \<open>The only exception the class can raise: a lookup of a key the dict does not hold.\<close>

datatype py_error = KeyError

text \<open>
  The fields set by \<open>__init__\<close>. \<open>window_size\<close> is annotated \<open>int\<close>, but it only
  ever meets the float clock in \<open>current_time - self.window_size\<close> and
  \<open>oldest_timestamp + self.window_size\<close>, where Python promotes it; it is a \<open>real\<close> here.
\<close>

record limiter =
  window_size :: real
  max_requests :: int
  request_history :: "string \<rightharpoonup> real list"

text \<open>The log of a user as the deque holds it; a user without an entry has no time stamps.\<close>

definition log_of :: "limiter \<Rightarrow> string \<Rightarrow> real list" where
  "log_of s user_id = (case request_history s user_id of None \<Rightarrow> [] | Some ts \<Rightarrow> ts)"

subsection \<open>Construction\<close>

definition new_limiter :: "real \<Rightarrow> int \<Rightarrow> limiter" where
  "new_limiter w n = \<lparr>window_size = w, max_requests = n, request_history = Map.empty\<rparr>"

text \<open>
  \<open>__init__(self, window_size=10, max_requests=1)\<close>: an argument left out is \<open>None\<close>
  here and takes the default. The body stores the two arguments and an empty dict; it has
  no \<open>raise\<close>. The result is given in a sum type so that "construction fails" can be
  stated at all.
\<close>

definition init :: "real option \<Rightarrow> int option \<Rightarrow> py_error + limiter" where
  "init window_size_arg max_requests_arg =
     Inr (new_limiter
            (case window_size_arg of None \<Rightarrow> 10 | Some w \<Rightarrow> w)
            (case max_requests_arg of None \<Rightarrow> 1 | Some n \<Rightarrow> n))"

subsection \<open>Eviction\<close>

text \<open>
  The loop of \<open>_cleanup_window\<close>:
  \<^verbatim>\<open>while user_timestamps and user_timestamps[0] <= current_time - self.window_size:
      user_timestamps.popleft()\<close>
  It looks at the head only and stops at the first time stamp that is still inside the
  window.
\<close>

fun evict :: "real list \<Rightarrow> real \<Rightarrow> real \<Rightarrow> real list" where
  "evict [] current_time w = []"
| "evict (t # ts) current_time w =
     (if t \<le> current_time - w then evict ts current_time w else t # ts)"

text \<open>
  \<open>_cleanup_window\<close>: nothing for an unknown user; otherwise the loop, and the entry is
  deleted when the deque is left empty.
\<close>

definition cleanup_window :: "limiter \<Rightarrow> string \<Rightarrow> real \<Rightarrow> limiter" where
  "cleanup_window s user_id current_time =
     (case request_history s user_id of
        None \<Rightarrow> s
      | Some user_timestamps \<Rightarrow>
          (let remaining = evict user_timestamps current_time (window_size s)
           in if remaining = []
              then s\<lparr>request_history := (request_history s)(user_id := None)\<rparr>
              else s\<lparr>request_history := (request_history s)(user_id \<mapsto> remaining)\<rparr>))"

subsection \<open>The three public methods\<close>

text \<open>
  \<open>can_send_message\<close>: one clock reading, eviction at that reading, then
  \<^verbatim>\<open>if user_id not in self.request_history or not self.request_history[user_id]:
      return True
  return len(self.request_history[user_id]) < self.max_requests\<close>
\<close>

definition can_send_message :: "limiter \<Rightarrow> string \<Rightarrow> real \<Rightarrow> bool \<times> limiter" where
  "can_send_message s user_id current_time =
     (let s' = cleanup_window s user_id current_time
      in case request_history s' user_id of
           None \<Rightarrow> (True, s')
         | Some ts \<Rightarrow>
             if ts = [] then (True, s')
             else (int (length ts) < max_requests s', s'))"

text \<open>
  \<open>record_message\<close>: \<open>check_time\<close> is the reading taken inside \<open>can_send_message\<close>,
  \<open>current_time\<close> the second reading, taken after the check and appended. A refused
  call returns before the second reading. An absent entry is created as an empty deque
  before the append.
\<close>

definition record_message :: "limiter \<Rightarrow> string \<Rightarrow> real \<Rightarrow> real \<Rightarrow> bool \<times> limiter" where
  "record_message s user_id check_time current_time =
     (case can_send_message s user_id check_time of
        (allowed, s') \<Rightarrow>
          if \<not> allowed then (False, s')
          else
            (let history = (case request_history s' user_id of
                              None \<Rightarrow> (request_history s')(user_id \<mapsto> [])
                            | Some _ \<Rightarrow> request_history s')
             in (True, s'\<lparr>request_history :=
                          history(user_id \<mapsto>
                            (case history user_id of None \<Rightarrow> [] | Some ts \<Rightarrow> ts)
                              @ [current_time])\<rparr>)))"

text \<open>
  \<open>time_until_next_allowed\<close>: the membership test comes first, before the clock is read
  and before the eviction. After the eviction the method subscripts the dict again
  (\<open>self.request_history[user_id]\<close>) without a second membership test: when the
  eviction has deleted the entry, that lookup raises \<open>KeyError\<close>, and the deletion
  stays in the object.
\<close>

definition time_until_next_allowed ::
  "limiter \<Rightarrow> string \<Rightarrow> real \<Rightarrow> (py_error + real) \<times> limiter" where
  "time_until_next_allowed s user_id current_time =
     (case request_history s user_id of
        None \<Rightarrow> (Inr 0, s)
      | Some _ \<Rightarrow>
          (let s' = cleanup_window s user_id current_time
           in case request_history s' user_id of
                None \<Rightarrow> (Inl KeyError, s')
              | Some [] \<Rightarrow> (Inr 0, s')
              | Some (oldest_timestamp # rest) \<Rightarrow>
                  if int (length (oldest_timestamp # rest)) < max_requests s'
                  then (Inr 0, s')
                  else (Inr (max 0 (oldest_timestamp + window_size s' - current_time)), s')))"

subsection \<open>Sequences of calls\<close>

text \<open>A call of a public method, with the clock readings it makes.\<close>

datatype call =
  CanSend string real
| Record string real real
| TimeUntil string real

fun step :: "limiter \<Rightarrow> call \<Rightarrow> limiter" where
  "step s (CanSend user_id t) = snd (can_send_message s user_id t)"
| "step s (Record user_id t1 t2) = snd (record_message s user_id t1 t2)"
| "step s (TimeUntil user_id t) = snd (time_until_next_allowed s user_id t)"

fun readings :: "call \<Rightarrow> real list" where
  "readings (CanSend user_id t) = [t]"
| "readings (Record user_id t1 t2) = [t1, t2]"
| "readings (TimeUntil user_id t) = [t]"

text \<open>The limiter after a sequence of calls, and every clock reading of the sequence in order.\<close>

definition run :: "limiter \<Rightarrow> call list \<Rightarrow> limiter" where
  "run s calls = foldl step s calls"

definition clock :: "call list \<Rightarrow> real list" where
  "clock calls = concat (map readings calls)"

section \<open>Lemmas about the eviction loop\<close>

text \<open>The loop drops the longest prefix of expired time stamps.\<close>

lemma evict_dropWhile: "evict ts now w = dropWhile (\<lambda>t. t \<le> now - w) ts"
  by (induction ts) auto

lemma length_evict_le: "length (evict ts now w) \<le> length ts"
  by (simp add: evict_dropWhile length_dropWhile_le)

lemma evict_same_length: "length (evict ts now w) = length ts \<Longrightarrow> evict ts now w = ts"
proof (induction ts)
  case Nil
  then show ?case by simp
next
  case (Cons t ts)
  show ?case
  proof (cases "t \<le> now - w")
    case True
    have "length (evict ts now w) \<le> length ts" by (rule length_evict_le)
    with Cons.prems True show ?thesis by simp
  next
    case False
    then show ?thesis by simp
  qed
qed

lemma sorted_evict: "sorted ts \<Longrightarrow> sorted (evict ts now w)"
  by (simp add: evict_dropWhile sorted_dropWhile)

lemma set_evict_subset: "set (evict ts now w) \<subseteq> set ts"
  by (simp add: evict_dropWhile set_dropWhileD subsetI)

text \<open>On a non-decreasing log the prefix holds every expired time stamp.\<close>

lemma evict_sorted_filter:
  "sorted ts \<Longrightarrow> evict ts now w = filter (\<lambda>t. \<not> t \<le> now - w) ts"
proof (induction ts)
  case Nil
  then show ?case by simp
next
  case (Cons t ts)
  show ?case
  proof (cases "t \<le> now - w")
    case True
    with Cons show ?thesis by simp
  next
    case False
    with Cons.prems have "\<forall>x\<in>set ts. \<not> x \<le> now - w" by auto
    then have "filter (\<lambda>t. \<not> t \<le> now - w) ts = ts" by (simp add: filter_id_conv)
    with False show ?thesis by simp
  qed
qed

lemma evict_all_expired: "\<forall>t\<in>set ts. t \<le> now - w \<Longrightarrow> evict ts now w = []"
  by (induction ts) auto

text \<open>Evicting at an instant and then at a later one is evicting at the later one.\<close>

lemma evict_evict: "t \<le> t' \<Longrightarrow> evict (evict ts t w) t' w = evict ts t' w"
  by (induction ts) auto

section \<open>Lemmas about the methods\<close>

lemma window_size_cleanup [simp]: "window_size (cleanup_window s k now) = window_size s"
  by (simp add: cleanup_window_def Let_def split: option.splits)

lemma max_requests_cleanup [simp]: "max_requests (cleanup_window s k now) = max_requests s"
  by (simp add: cleanup_window_def Let_def split: option.splits)

lemma history_cleanup:
  "request_history (cleanup_window s k now) k' =
     (if k' = k
      then (if evict (log_of s k) now (window_size s) = [] then None
            else Some (evict (log_of s k) now (window_size s)))
      else request_history s k')"
  by (simp add: cleanup_window_def log_of_def Let_def split: option.splits)

lemma log_of_cleanup:
  "log_of (cleanup_window s k now) k' =
     (if k' = k then evict (log_of s k) now (window_size s) else log_of s k')"
  by (simp add: log_of_def history_cleanup)

lemma cleanup_absent: "request_history s k = None \<Longrightarrow> cleanup_window s k now = s"
  by (simp add: cleanup_window_def)

lemma cleanup_unchanged:
  assumes "request_history s k = Some ts" and "ts \<noteq> []" and "evict ts now (window_size s) = ts"
  shows "cleanup_window s k now = s"
proof -
  from assms have "(request_history s)(k \<mapsto> ts) = request_history s" by (simp add: fun_upd_idem_iff)
  with assms show ?thesis by (simp add: cleanup_window_def Let_def)
qed

lemma cleanup_window_twice:
  assumes "t \<le> t'"
  shows "cleanup_window (cleanup_window s k t) k t' = cleanup_window s k t'"
proof (rule limiter.equality)
  show "request_history (cleanup_window (cleanup_window s k t) k t') =
        request_history (cleanup_window s k t')"
  proof
    fix k'
    show "request_history (cleanup_window (cleanup_window s k t) k t') k' =
          request_history (cleanup_window s k t') k'"
      using assms by (simp add: history_cleanup log_of_cleanup evict_evict)
  qed
qed (simp_all add: cleanup_window_def Let_def split: option.splits)

lemma snd_can_send_message: "snd (can_send_message s k t) = cleanup_window s k t"
  by (simp add: can_send_message_def Let_def split: option.splits)

lemma fst_can_send_message:
  "fst (can_send_message s k t) =
     (evict (log_of s k) t (window_size s) = [] \<or>
      int (length (evict (log_of s k) t (window_size s))) < max_requests s)"
  by (simp add: can_send_message_def Let_def history_cleanup split: option.splits)

lemma can_send_message_twice:
  "t \<le> t' \<Longrightarrow> can_send_message (snd (can_send_message s k t)) k t' = can_send_message s k t'"
  by (simp add: snd_can_send_message)
     (simp add: can_send_message_def cleanup_window_twice)

lemma record_message_eq:
  "record_message s k t1 t2 =
     (if fst (can_send_message s k t1)
      then (True, (cleanup_window s k t1)\<lparr>request_history :=
              (request_history (cleanup_window s k t1))
                (k \<mapsto> evict (log_of s k) t1 (window_size s) @ [t2])\<rparr>)
      else (False, cleanup_window s k t1))"
proof -
  obtain allowed s' where c: "can_send_message s k t1 = (allowed, s')"
    by (cases "can_send_message s k t1")
  then have s': "s' = cleanup_window s k t1"
    using snd_can_send_message [of s k t1] by simp
  show ?thesis
  proof (cases allowed)
    case False
    with c s' show ?thesis by (simp add: record_message_def)
  next
    case True
    have "log_of s' k = evict (log_of s k) t1 (window_size s)"
      by (simp add: s' log_of_cleanup)
    with c True s' show ?thesis
      by (simp add: record_message_def log_of_def split: option.splits)
  qed
qed

text \<open>
  A refused \<open>record_message\<close> leaves the limiter as the eviction of the check left it,
  and that eviction removes nothing from a log within the capacity bound.
\<close>

lemma record_message_denied_evicts:
  "\<not> fst (record_message s k t1 t2) \<Longrightarrow>
   record_message s k t1 t2 = (False, cleanup_window s k t1)"
  by (simp add: record_message_eq split: if_splits)

lemma cleanup_window_full_log:
  assumes "int (length (log_of s k)) \<le> max (max_requests s) 1"
    and "\<not> fst (can_send_message s k t)"
  shows "cleanup_window s k t = s"
proof -
  let ?e = "evict (log_of s k) t (window_size s)"
  from assms(2) have ne: "?e \<noteq> []" and full: "max_requests s \<le> int (length ?e)"
    by (simp_all add: fst_can_send_message)
  from ne have "1 \<le> int (length ?e)" by (cases ?e) simp_all
  with full have "max (max_requests s) 1 \<le> int (length ?e)" by simp
  moreover have "length ?e \<le> length (log_of s k)" by (rule length_evict_le)
  ultimately have "length ?e = length (log_of s k)" using assms(1) by linarith
  then have same: "?e = log_of s k" by (rule evict_same_length)
  with ne obtain ts where "request_history s k = Some ts" "ts \<noteq> []" "log_of s k = ts"
    by (cases "request_history s k") (simp_all add: log_of_def)
  with same show ?thesis
    by (intro cleanup_unchanged [of s k ts]) simp_all
qed

lemma snd_time_until_next_allowed:
  "snd (time_until_next_allowed s k t) = cleanup_window s k t"
  by (auto simp: time_until_next_allowed_def Let_def cleanup_absent split: option.splits list.splits)

text \<open>
  The result of \<open>time_until_next_allowed\<close> in every case: the second branch is the
  subscript of an entry that the eviction has deleted.
\<close>

lemma fst_time_until_next_allowed:
  "fst (time_until_next_allowed s k now) =
     (if request_history s k = None then Inr 0
      else case evict (log_of s k) now (window_size s) of
             [] \<Rightarrow> Inl KeyError
           | oldest # rest \<Rightarrow>
               if int (length (oldest # rest)) < max_requests s then Inr 0
               else Inr (max 0 (oldest + window_size s - now)))"
  by (auto simp: time_until_next_allowed_def Let_def history_cleanup split: option.splits list.splits)

text \<open>
  Where the method does not raise, it agrees with \<open>can_send_message\<close> at the same
  reading: 0 when the message would be admitted, otherwise the time until the head of the
  log leaves the window, never negative.
\<close>

lemma time_until_next_allowed_no_raise:
  assumes "request_history s k = None \<or> evict (log_of s k) now (window_size s) \<noteq> []"
  shows "fst (time_until_next_allowed s k now) =
           Inr (if fst (can_send_message s k now) then 0
                else max 0 (hd (evict (log_of s k) now (window_size s)) + window_size s - now))"
proof (cases "request_history s k")
  case None
  then show ?thesis
    by (simp add: fst_time_until_next_allowed fst_can_send_message log_of_def)
next
  case (Some ts)
  with assms obtain oldest rest where
    "evict (log_of s k) now (window_size s) = oldest # rest"
    by (cases "evict (log_of s k) now (window_size s)") simp_all
  with Some show ?thesis
    by (simp add: fst_time_until_next_allowed fst_can_send_message)
qed

lemma time_until_next_allowed_nonneg:
  "fst (time_until_next_allowed s k now) = Inr d \<Longrightarrow> 0 \<le> d"
  by (auto simp: fst_time_until_next_allowed split: if_splits list.splits)

lemma time_until_next_allowed_after_query:
  assumes "t \<le> t'" and "evict (log_of s k) t' (window_size s) \<noteq> []"
  shows "fst (time_until_next_allowed (cleanup_window s k t) k t') =
         fst (time_until_next_allowed s k t')"
proof -
  from assms(2) have "log_of s k \<noteq> []" by auto
  then have p: "request_history s k \<noteq> None" by (auto simp: log_of_def split: option.splits)
  from assms have "evict (log_of s k) t (window_size s) \<noteq> []"
    using evict_evict [of t t' "log_of s k" "window_size s"] by auto
  then have q: "request_history (cleanup_window s k t) k \<noteq> None"
    by (simp add: history_cleanup)
  from p q assms(1) show ?thesis
    by (auto simp: fst_time_until_next_allowed log_of_cleanup evict_evict split: list.splits)
qed

section \<open>Lemmas about sequences of calls\<close>

lemma window_size_step [simp]: "window_size (step s c) = window_size s"
  by (cases c) (simp_all add: snd_can_send_message snd_time_until_next_allowed record_message_eq)

lemma max_requests_step [simp]: "max_requests (step s c) = max_requests s"
  by (cases c) (simp_all add: snd_can_send_message snd_time_until_next_allowed record_message_eq)

lemma run_snoc: "run s (calls @ [c]) = step (run s calls) c"
  by (simp add: run_def)

lemma run_Nil: "run s [] = s"
  by (simp add: run_def)

lemma window_size_run [simp]: "window_size (run s calls) = window_size s"
  by (induction calls rule: rev_induct) (simp_all add: run_Nil run_snoc)

lemma max_requests_run [simp]: "max_requests (run s calls) = max_requests s"
  by (induction calls rule: rev_induct) (simp_all add: run_Nil run_snoc)

lemma clock_snoc: "clock (calls @ [c]) = clock calls @ readings c"
  by (simp add: clock_def)

lemma log_of_step:
  "log_of (step s c) k =
     (case c of
        CanSend u t \<Rightarrow> if k = u then evict (log_of s u) t (window_size s) else log_of s k
      | TimeUntil u t \<Rightarrow> if k = u then evict (log_of s u) t (window_size s) else log_of s k
      | Record u t1 t2 \<Rightarrow>
          if k = u
          then (if fst (can_send_message s u t1)
                then evict (log_of s u) t1 (window_size s) @ [t2]
                else evict (log_of s u) t1 (window_size s))
          else log_of s k)"
  by (cases c)
     (simp_all add: snd_can_send_message snd_time_until_next_allowed record_message_eq
        log_of_cleanup, simp_all add: log_of_def history_cleanup)

text \<open>No call leaves an empty deque in the dict.\<close>

lemma history_step_not_Nil:
  assumes "request_history s k \<noteq> Some []"
  shows "request_history (step s c) k \<noteq> Some []"
  using assms
  by (cases c)
     (simp_all add: snd_can_send_message snd_time_until_next_allowed record_message_eq
        history_cleanup)

lemma history_run_not_Nil: "request_history (run (new_limiter w n) calls) k \<noteq> Some []"
proof (induction calls rule: rev_induct)
  case Nil
  show ?case by (simp add: run_Nil new_limiter_def)
next
  case (snoc c calls)
  then show ?case by (simp add: run_snoc history_step_not_Nil)
qed

text \<open>
  A log never holds more than \<open>max_requests\<close> time stamps, or one when
  \<open>max_requests\<close> is below one (the first message of an unknown user is always
  recorded). No assumption on the clock is needed.
\<close>

lemma capacity_step:
  assumes "int (length (log_of s k)) \<le> max (max_requests s) 1"
  shows "int (length (log_of (step s c) k)) \<le> max (max_requests s) 1"
proof -
  have le: "\<And>t. int (length (evict (log_of s k) t (window_size s))) \<le> max (max_requests s) 1"
  proof -
    fix t
    have "length (evict (log_of s k) t (window_size s)) \<le> length (log_of s k)"
      by (rule length_evict_le)
    with assms show "int (length (evict (log_of s k) t (window_size s))) \<le> max (max_requests s) 1"
      by linarith
  qed
  show ?thesis
  proof (cases c)
    case (CanSend u t)
    with assms le show ?thesis by (auto simp: log_of_step simp del: step.simps)
  next
    case (TimeUntil u t)
    with assms le show ?thesis by (auto simp: log_of_step simp del: step.simps)
  next
    case (Record u t1 t2)
    show ?thesis
    proof (cases "k = u \<and> fst (can_send_message s u t1)")
      case False
      with Record assms le show ?thesis by (auto simp: log_of_step simp del: step.simps)
    next
      case True
      then have "evict (log_of s k) t1 (window_size s) = [] \<or>
                 int (length (evict (log_of s k) t1 (window_size s))) < max_requests s"
        by (simp add: fst_can_send_message)
      with Record True show ?thesis by (auto simp: log_of_step simp del: step.simps)
    qed
  qed
qed

lemma capacity_run:
  "int (length (log_of (run (new_limiter w n) calls) k)) \<le> max n 1"
proof (induction calls rule: rev_induct)
  case Nil
  show ?case by (simp add: run_Nil new_limiter_def log_of_def)
next
  case (snoc c calls)
  have "max_requests (run (new_limiter w n) calls) = n" by (simp add: new_limiter_def)
  with snoc capacity_step [of "run (new_limiter w n) calls" k c] show ?case
    by (simp add: run_snoc)
qed

text \<open>With a clock that never goes back, every log is non-decreasing.\<close>

lemma sorted_run:
  "sorted (clock calls) \<Longrightarrow>
   sorted (log_of (run (new_limiter w n) calls) k) \<and>
   set (log_of (run (new_limiter w n) calls) k) \<subseteq> set (clock calls)"
proof (induction calls rule: rev_induct)
  case Nil
  show ?case by (simp add: run_Nil new_limiter_def log_of_def)
next
  case (snoc c calls)
  let ?s = "run (new_limiter w n) calls"
  from snoc.prems have sc: "sorted (clock calls)"
    and sr: "sorted (readings c)"
    and le: "\<forall>x\<in>set (clock calls). \<forall>y\<in>set (readings c). x \<le> y"
    by (simp_all add: clock_snoc sorted_append)
  from snoc.IH [OF sc] have so: "sorted (log_of ?s k)"
    and sub: "set (log_of ?s k) \<subseteq> set (clock calls)" by simp_all
  have ev: "\<And>t. sorted (evict (log_of ?s k) t (window_size ?s))"
    using so by (rule sorted_evict)
  have evs: "\<And>t. set (evict (log_of ?s k) t (window_size ?s)) \<subseteq> set (clock calls)"
    using sub set_evict_subset by blast
  show ?case
  proof (cases c)
    case (CanSend u t)
    with so sub ev evs show ?thesis by (auto simp: run_snoc log_of_step clock_snoc simp del: step.simps)
  next
    case (TimeUntil u t)
    with so sub ev evs show ?thesis by (auto simp: run_snoc log_of_step clock_snoc simp del: step.simps)
  next
    case (Record u t1 t2)
    from le Record have "\<forall>x\<in>set (clock calls). x \<le> t2" by simp
    with evs have "\<And>t. \<forall>x\<in>set (evict (log_of ?s k) t (window_size ?s)). x \<le> t2" by blast
    with Record so sub ev evs show ?thesis
      by (auto simp: run_snoc log_of_step clock_snoc sorted_append simp del: step.simps)
  qed
qed

section \<open>Construction\<close>

text \<open>
  C10. Constructing the limiter with no arguments yields \<open>window_size = 10\<close> and
  \<open>max_requests = 1\<close>, and the object is the one that the explicit call with 10 and 1
  constructs, so every method behaves the same on both.
\<close>

theorem init_defaults:
  "init None None = init (Some 10) (Some 1) \<and>
   init None None = Inr \<lparr>window_size = 10, max_requests = 1, request_history = Map.empty\<rparr>"
  by (simp add: init_def new_limiter_def)

text \<open>
  C3, as stated, fails: constructing with \<open>window_size = 0\<close> and \<open>max_requests = 0\<close>
  returns a limiter, and the first \<open>record_message\<close> on it raises nothing either (it
  admits the message).
\<close>

theorem init_accepts_nonpositive:
  "init (Some 0) (Some 0) = Inr (new_limiter 0 0) \<and>
   fst (record_message (new_limiter 0 0) ''A'' 0 0)"
  by (simp add: init_def record_message_def can_send_message_def cleanup_window_def
      new_limiter_def Let_def)

text \<open>
  C3, amended. \<open>__init__\<close> validates nothing: construction never fails, whatever the
  arguments, and the object holds the two arguments as given and an empty history.
\<close>

theorem init_never_fails:
  "init window_size_arg max_requests_arg \<noteq> Inl e \<and>
   init (Some w) (Some n) =
     Inr \<lparr>window_size = w, max_requests = n, request_history = Map.empty\<rparr>"
  by (simp add: init_def new_limiter_def)

section \<open>Eviction\<close>

text \<open>
  C5. On a non-decreasing log, eviction at \<open>now\<close> keeps exactly the time stamps
  \<open>t\<close> with \<open>now - window_size < t\<close>, in their order, and removes those with
  \<open>t \<le> now - window_size\<close>; a time stamp equal to \<open>now - window_size\<close> is not kept;
  the entry of the user stays in the dict exactly when a time stamp is kept; and when no
  time stamp is later than \<open>now\<close>, what is kept lies in the half-open interval
  \<open>(now - window_size, now]\<close>.
\<close>

theorem cleanup_window_evicts_expired:
  assumes "sorted (log_of s user_id)"
  shows "log_of (cleanup_window s user_id now) user_id =
           filter (\<lambda>t. now - window_size s < t) (log_of s user_id) \<and>
         now - window_size s \<notin> set (log_of (cleanup_window s user_id now) user_id) \<and>
         (user_id \<in> dom (request_history (cleanup_window s user_id now))) =
           (\<exists>t\<in>set (log_of s user_id). now - window_size s < t) \<and>
         ((\<forall>t\<in>set (log_of s user_id). t \<le> now) \<longrightarrow>
            set (log_of (cleanup_window s user_id now) user_id) \<subseteq> {now - window_size s <.. now})"
proof -
  have "(\<lambda>t. \<not> t \<le> now - window_size s) = (\<lambda>t. now - window_size s < t)"
    by (simp add: not_le)
  with evict_sorted_filter [OF assms, of now "window_size s"]
  have e: "evict (log_of s user_id) now (window_size s) =
             filter (\<lambda>t. now - window_size s < t) (log_of s user_id)" by simp
  have "(filter (\<lambda>t. now - window_size s < t) (log_of s user_id) \<noteq> []) =
          (\<exists>t\<in>set (log_of s user_id). now - window_size s < t)"
    by (auto simp: filter_empty_conv not_less not_le)
  with e show ?thesis
    by (auto simp: log_of_cleanup history_cleanup dom_def)
qed

theorem cleanup_window_evicts_expired_witness:
  "sorted (log_of (run (new_limiter 10 3) [Record ''C'' 1 1, Record ''C'' 2 2, Record ''C'' 3 3]) ''C'') \<and>
   log_of (run (new_limiter 10 3) [Record ''C'' 1 1, Record ''C'' 2 2, Record ''C'' 3 3]) ''C'' = [1, 2, 3] \<and>
   log_of (cleanup_window
      (run (new_limiter 10 3) [Record ''C'' 1 1, Record ''C'' 2 2, Record ''C'' 3 3]) ''C'' 12) ''C'' = [3] \<and>
   (12 - 10 :: real) \<notin> set (log_of (cleanup_window
      (run (new_limiter 10 3) [Record ''C'' 1 1, Record ''C'' 2 2, Record ''C'' 3 3]) ''C'' 12) ''C'') \<and>
   set (log_of (cleanup_window
      (run (new_limiter 10 3) [Record ''C'' 1 1, Record ''C'' 2 2, Record ''C'' 3 3]) ''C'' 12) ''C'')
     \<subseteq> {12 - 10 <.. 12}"
proof -
  let ?s = "run (new_limiter 10 3) [Record ''C'' 1 1, Record ''C'' 2 2, Record ''C'' 3 3]"
  have l: "log_of ?s ''C'' = [1, 2, 3]"
    by (simp add: run_def record_message_def can_send_message_def cleanup_window_def
        new_limiter_def log_of_def Let_def)
  have w: "window_size ?s = 10" by (simp add: new_limiter_def)
  have h: "sorted (log_of ?s ''C'')" by (simp add: l)
  from cleanup_window_evicts_expired [OF h, of 12] h l w show ?thesis by simp
qed

section \<open>Admission\<close>

text \<open>
  C6, as stated, fails in its last clause: a limiter constructed with
  \<open>max_requests = 0\<close> has, for an unknown user, exactly \<open>max_requests\<close> active time
  stamps (none), and \<open>can_send_message\<close> admits the user, because the test for an
  absent or empty entry comes before the comparison with \<open>max_requests\<close>.
\<close>

theorem can_send_message_zero_limit:
  "max_requests (new_limiter 10 0) = 0 \<and>
   log_of (snd (can_send_message (new_limiter 10 0) ''A'' 0)) ''A'' = [] \<and>
   int (length (log_of (snd (can_send_message (new_limiter 10 0) ''A'' 0)) ''A'')) =
     max_requests (new_limiter 10 0) \<and>
   fst (can_send_message (new_limiter 10 0) ''A'' 0)"
  by (simp add: can_send_message_def cleanup_window_def new_limiter_def log_of_def Let_def)

text \<open>
  C6, amended. \<open>can_send_message\<close> takes one clock reading and leaves the limiter
  evicted for the user at that reading: on a non-decreasing log the active time stamps
  that remain are exactly those later than \<open>now - window_size\<close>, and the user stays
  in the dict exactly when there is one. It returns true if and only if the user is then
  absent or the number of active time stamps is strictly less than \<open>max_requests\<close>.
  So a user with exactly \<open>max_requests - 1\<close> active time stamps is admitted, and, when
  \<open>max_requests \<ge> 1\<close>, one with exactly \<open>max_requests\<close> active time stamps is not.
\<close>

theorem can_send_message_admits:
  assumes "sorted (log_of s user_id)"
  shows "snd (can_send_message s user_id now) = cleanup_window s user_id now \<and>
    log_of (snd (can_send_message s user_id now)) user_id =
      filter (\<lambda>t. now - window_size s < t) (log_of s user_id) \<and>
    (request_history (snd (can_send_message s user_id now)) user_id = None) =
      (filter (\<lambda>t. now - window_size s < t) (log_of s user_id) = []) \<and>
    fst (can_send_message s user_id now) =
      (request_history (snd (can_send_message s user_id now)) user_id = None \<or>
       int (length (filter (\<lambda>t. now - window_size s < t) (log_of s user_id)))
         < max_requests s) \<and>
    (int (length (filter (\<lambda>t. now - window_size s < t) (log_of s user_id)))
       = max_requests s - 1 \<longrightarrow>
     fst (can_send_message s user_id now)) \<and>
    (1 \<le> max_requests s \<longrightarrow>
     int (length (filter (\<lambda>t. now - window_size s < t) (log_of s user_id)))
       = max_requests s \<longrightarrow>
     \<not> fst (can_send_message s user_id now))"
proof -
  let ?active = "filter (\<lambda>t. now - window_size s < t) (log_of s user_id)"
  have "(\<lambda>t. \<not> t \<le> now - window_size s) = (\<lambda>t. now - window_size s < t)"
    by (simp add: not_le)
  with evict_sorted_filter [OF assms, of now "window_size s"]
  have e: "evict (log_of s user_id) now (window_size s) = ?active" by simp
  have after: "snd (can_send_message s user_id now) = cleanup_window s user_id now"
    by (rule snd_can_send_message)
  have log: "log_of (snd (can_send_message s user_id now)) user_id = ?active"
    by (simp add: after log_of_cleanup e)
  have absent: "(request_history (snd (can_send_message s user_id now)) user_id = None) =
                  (?active = [])"
    by (simp add: after history_cleanup e)
  have res: "fst (can_send_message s user_id now) =
               (?active = [] \<or> int (length ?active) < max_requests s)"
    by (simp add: fst_can_send_message e)
  have below: "int (length ?active) = max_requests s - 1 \<longrightarrow>
                 fst (can_send_message s user_id now)"
    by (simp add: res)
  have full: "1 \<le> max_requests s \<longrightarrow> int (length ?active) = max_requests s \<longrightarrow>
                \<not> fst (can_send_message s user_id now)"
    by (auto simp: res)
  from after log absent res below full show ?thesis by blast
qed

theorem can_send_message_admits_witness:
  "log_of (run (new_limiter 10 2) [Record ''A'' 0 0, Record ''A'' 5 5]) ''A'' = [0, 5] \<and>
   log_of (snd (can_send_message
      (run (new_limiter 10 2) [Record ''A'' 0 0, Record ''A'' 5 5]) ''A'' 10)) ''A'' = [5] \<and>
   fst (can_send_message (run (new_limiter 10 2) [Record ''A'' 0 0, Record ''A'' 5 5]) ''A'' 10) \<and>
   log_of (run (new_limiter 10 2) [Record ''A'' 0 0, Record ''A'' 5 5, Record ''A'' 12 12]) ''A''
     = [5, 12] \<and>
   log_of (snd (can_send_message
      (run (new_limiter 10 2) [Record ''A'' 0 0, Record ''A'' 5 5, Record ''A'' 12 12])
      ''A'' 13)) ''A'' = [5, 12] \<and>
   \<not> fst (can_send_message
      (run (new_limiter 10 2) [Record ''A'' 0 0, Record ''A'' 5 5, Record ''A'' 12 12]) ''A'' 13)"
proof -
  let ?s1 = "run (new_limiter 10 2) [Record ''A'' 0 0, Record ''A'' 5 5]"
  let ?s2 = "run (new_limiter 10 2) [Record ''A'' 0 0, Record ''A'' 5 5, Record ''A'' 12 12]"
  have l1: "log_of ?s1 ''A'' = [0, 5]"
    by (simp add: run_def record_message_def can_send_message_def cleanup_window_def
        new_limiter_def log_of_def Let_def)
  have l2: "log_of ?s2 ''A'' = [5, 12]"
    by (simp add: run_def record_message_def can_send_message_def cleanup_window_def
        new_limiter_def log_of_def Let_def)
  have w1: "window_size ?s1 = 10" and m1: "max_requests ?s1 = 2"
    by (simp_all add: new_limiter_def)
  have w2: "window_size ?s2 = 10" and m2: "max_requests ?s2 = 2"
    by (simp_all add: new_limiter_def)
  have h1: "sorted (log_of ?s1 ''A'')" unfolding l1 by simp
  have h2: "sorted (log_of ?s2 ''A'')" unfolding l2 by simp
  have f1: "filter (\<lambda>t. 10 - window_size ?s1 < t) (log_of ?s1 ''A'') = [5]"
    unfolding l1 w1 by simp
  have f2: "filter (\<lambda>t. 13 - window_size ?s2 < t) (log_of ?s2 ''A'') = [5, 12]"
    unfolding l2 w2 by simp
  note a = can_send_message_admits [OF h1, of 10]
  note b = can_send_message_admits [OF h2, of 13]
  from a have a1: "log_of (snd (can_send_message ?s1 ''A'' 10)) ''A'' = [5]"
    unfolding f1 by blast
  from a have "int (length [5::real]) = max_requests ?s1 - 1 \<longrightarrow>
                 fst (can_send_message ?s1 ''A'' 10)"
    unfolding f1 by blast
  then have a2: "fst (can_send_message ?s1 ''A'' 10)" unfolding m1 by simp
  from b have b1: "log_of (snd (can_send_message ?s2 ''A'' 13)) ''A'' = [5, 12]"
    unfolding f2 by blast
  from b have "1 \<le> max_requests ?s2 \<longrightarrow> int (length [5::real, 12]) = max_requests ?s2 \<longrightarrow>
                 \<not> fst (can_send_message ?s2 ''A'' 13)"
    unfolding f2 by blast
  then have b2: "\<not> fst (can_send_message ?s2 ''A'' 13)" unfolding m2 by simp
  from l1 a1 a2 l2 b1 b2 show ?thesis by blast
qed

section \<open>Recording\<close>

text \<open>
  C2, as stated, fails: \<open>record_message\<close> decides admission at the reading taken inside
  \<open>can_send_message\<close> (here 0) and appends a second reading taken afterwards (here 1).
\<close>

theorem record_message_two_readings:
  "fst (can_send_message (new_limiter 10 1) ''A'' 0) \<and>
   fst (record_message (new_limiter 10 1) ''A'' 0 1) \<and>
   log_of (snd (record_message (new_limiter 10 1) ''A'' 0 1)) ''A'' = [1] \<and>
   (1::real) \<noteq> 0"
  by (simp add: record_message_def can_send_message_def cleanup_window_def
      new_limiter_def log_of_def Let_def)

text \<open>
  C2, amended. When \<open>record_message\<close> returns true, admission was decided by
  \<open>can_send_message\<close> at the first clock reading, the log of the user is the log
  evicted at the first reading followed by the second clock reading, and the entries of
  all other users are as before. The call is one transition of the limiter; nothing is
  said about interleaved callers.
\<close>

theorem record_message_check_then_append:
  assumes "fst (record_message s user_id check_time current_time)"
  shows "fst (can_send_message s user_id check_time) \<and>
         log_of (snd (record_message s user_id check_time current_time)) user_id =
           log_of (cleanup_window s user_id check_time) user_id @ [current_time] \<and>
         (\<forall>k. k \<noteq> user_id \<longrightarrow>
            request_history (snd (record_message s user_id check_time current_time)) k =
              request_history s k)"
proof -
  from assms have a: "fst (can_send_message s user_id check_time)"
    by (simp add: record_message_eq split: if_splits)
  then show ?thesis
    by (simp add: record_message_eq log_of_def history_cleanup)
qed

theorem record_message_check_then_append_witness:
  "fst (record_message (new_limiter 10 1) ''A'' 0 1) \<and>
   fst (can_send_message (new_limiter 10 1) ''A'' 0) \<and>
   log_of (snd (record_message (new_limiter 10 1) ''A'' 0 1)) ''A'' =
     log_of (cleanup_window (new_limiter 10 1) ''A'' 0) ''A'' @ [1] \<and>
   request_history (snd (record_message (new_limiter 10 1) ''A'' 0 1)) ''B'' =
     request_history (new_limiter 10 1) ''B''"
proof -
  have h: "fst (record_message (new_limiter 10 1) ''A'' 0 1)"
    by (simp add: record_message_def can_send_message_def cleanup_window_def
        new_limiter_def Let_def)
  note r = record_message_check_then_append [OF h]
  from r have "request_history (snd (record_message (new_limiter 10 1) ''A'' 0 1)) ''B'' =
     request_history (new_limiter 10 1) ''B''" by auto
  with r h show ?thesis by simp
qed

text \<open>
  C4. In every state that a sequence of calls reaches from a new limiter, a
  \<open>record_message\<close> that is not admitted returns false and leaves the limiter as it
  was: a refusal means the log is full after eviction, and a full log had nothing to
  evict.
\<close>

theorem record_message_denied_unchanged:
  assumes "\<not> fst (record_message (run (new_limiter w n) calls) user_id t1 t2)"
  shows "record_message (run (new_limiter w n) calls) user_id t1 t2 =
           (False, run (new_limiter w n) calls)"
proof -
  let ?s = "run (new_limiter w n) calls"
  have "max_requests ?s = n" by (simp add: new_limiter_def)
  moreover have "int (length (log_of ?s user_id)) \<le> max n 1" by (rule capacity_run)
  ultimately have cap: "int (length (log_of ?s user_id)) \<le> max (max_requests ?s) 1"
    by simp
  from assms have "\<not> fst (can_send_message ?s user_id t1)"
    by (simp add: record_message_eq split: if_splits)
  with cap have "cleanup_window ?s user_id t1 = ?s" by (rule cleanup_window_full_log)
  with record_message_denied_evicts [OF assms] show ?thesis by simp
qed

theorem record_message_denied_unchanged_witness:
  "\<not> fst (record_message (run (new_limiter 10 1) [Record ''A'' 0 0]) ''A'' 5 5) \<and>
   record_message (run (new_limiter 10 1) [Record ''A'' 0 0]) ''A'' 5 5 =
     (False, run (new_limiter 10 1) [Record ''A'' 0 0])"
proof -
  have h: "\<not> fst (record_message (run (new_limiter 10 1) [Record ''A'' 0 0]) ''A'' 5 5)"
    by (simp add: run_def record_message_def can_send_message_def cleanup_window_def
        new_limiter_def Let_def)
  from record_message_denied_unchanged [OF h] h show ?thesis by simp
qed

section \<open>The wait time\<close>

text \<open>
  C1 does not hold of the code: after \<open>record_message\<close> for user A at time 0 (window
  10, one request), \<open>time_until_next_allowed\<close> for A at time 10 finds the entry,
  evicts its only time stamp, which deletes the entry, and then subscripts the dict with
  A: it raises \<open>KeyError\<close> where the claim has it return 0.
\<close>

theorem time_until_next_allowed_raises:
  "fst (time_until_next_allowed (run (new_limiter 10 1) [Record ''A'' 0 0]) ''A'' 10) = Inl KeyError"
  by (simp add: run_def record_message_def can_send_message_def cleanup_window_def
      time_until_next_allowed_def new_limiter_def Let_def)

section \<open>Invariants\<close>

text \<open>
  C7. Capacity invariant: with \<open>max_requests \<ge> 1\<close>, after any sequence of calls whose
  clock readings never decrease, the log of every user holds at most \<open>max_requests\<close>
  time stamps, and so does what eviction at a current time not before those readings
  retains.
\<close>

theorem capacity_invariant:
  assumes "1 \<le> n" and "sorted (clock calls)" and "\<forall>t\<in>set (clock calls). t \<le> now"
  shows "int (length (log_of (run (new_limiter w n) calls) user_id)) \<le> n \<and>
         int (length (log_of (cleanup_window (run (new_limiter w n) calls) user_id now) user_id))
           \<le> n"
proof -
  let ?s = "run (new_limiter w n) calls"
  have "int (length (log_of ?s user_id)) \<le> max n 1" by (rule capacity_run)
  with assms(1) have a: "int (length (log_of ?s user_id)) \<le> n" by simp
  have "length (evict (log_of ?s user_id) now (window_size ?s)) \<le> length (log_of ?s user_id)"
    by (rule length_evict_le)
  with a show ?thesis by (simp add: log_of_cleanup)
qed

theorem capacity_invariant_witness:
  "(1::int) \<le> 3 \<and>
   clock [Record ''C'' 1 1, Record ''C'' 2 2, Record ''C'' 3 3, Record ''C'' 4 4]
     = [1, 1, 2, 2, 3, 3, 4, 4] \<and>
   int (length (log_of (cleanup_window
     (run (new_limiter 10 3)
        [Record ''C'' 1 1, Record ''C'' 2 2, Record ''C'' 3 3, Record ''C'' 4 4]) ''C'' 4) ''C''))
     \<le> 3"
proof -
  let ?calls = "[Record ''C'' 1 1, Record ''C'' 2 2, Record ''C'' 3 3, Record ''C'' 4 4]"
  have c: "clock ?calls = [1, 1, 2, 2, 3, 3, 4, 4]" by (simp add: clock_def)
  have h1: "(1::int) \<le> 3" by simp
  have h2: "sorted (clock ?calls)" by (simp add: c)
  have h3: "\<forall>t\<in>set (clock ?calls). t \<le> 4" by (simp add: c)
  from capacity_invariant [OF h1 h2 h3, of 10 "''C''"] c show ?thesis by simp
qed

text \<open>
  C8. Key-presence invariant: in every state reached from a new limiter a user is in the
  dict if and only if the log of the user is not empty; every call preserves this; once
  every time stamp of a user has expired, eviction removes the user from the dict; and on
  a user who is not in the dict every method returns what it returns on a new limiter of
  the same configuration (admitted, wait 0, recorded with a log of one time stamp).
\<close>

theorem key_present_iff_log_nonempty:
  "(user_id \<in> dom (request_history (run (new_limiter w n) calls))) =
     (log_of (run (new_limiter w n) calls) user_id \<noteq> []) \<and>
   ((\<forall>k. (k \<in> dom (request_history s)) = (log_of s k \<noteq> [])) \<longrightarrow>
    (\<forall>k. (k \<in> dom (request_history (step s c))) = (log_of (step s c) k \<noteq> []))) \<and>
   ((\<forall>t\<in>set (log_of s user_id). t \<le> now - window_size s) \<longrightarrow>
      request_history (cleanup_window s user_id now) user_id = None) \<and>
   (request_history s user_id = None \<longrightarrow>
      can_send_message s user_id t = (True, s) \<and>
      time_until_next_allowed s user_id t = (Inr 0, s) \<and>
      record_message s user_id t1 t2 =
        (True, s\<lparr>request_history := (request_history s)(user_id \<mapsto> [t2])\<rparr>) \<and>
      fst (can_send_message s user_id t) =
        fst (can_send_message (new_limiter (window_size s) (max_requests s)) user_id t) \<and>
      fst (time_until_next_allowed s user_id t) =
        fst (time_until_next_allowed (new_limiter (window_size s) (max_requests s)) user_id t) \<and>
      fst (record_message s user_id t1 t2) =
        fst (record_message (new_limiter (window_size s) (max_requests s)) user_id t1 t2) \<and>
      log_of (snd (record_message s user_id t1 t2)) user_id =
        log_of (snd (record_message (new_limiter (window_size s) (max_requests s)) user_id t1 t2))
          user_id)"
proof -
  have inv: "\<And>s k. (k \<in> dom (request_history s)) = (log_of s k \<noteq> []) \<longleftrightarrow>
                  request_history s k \<noteq> Some []"
    by (auto simp: log_of_def dom_def split: option.splits)
  have p1: "(user_id \<in> dom (request_history (run (new_limiter w n) calls))) =
     (log_of (run (new_limiter w n) calls) user_id \<noteq> [])"
    by (simp only: inv) (rule history_run_not_Nil)
  have p2: "(\<forall>k. (k \<in> dom (request_history s)) = (log_of s k \<noteq> [])) \<longrightarrow>
    (\<forall>k. (k \<in> dom (request_history (step s c))) = (log_of (step s c) k \<noteq> []))"
    by (simp only: inv) (simp add: history_step_not_Nil del: step.simps)
  have p3: "(\<forall>t\<in>set (log_of s user_id). t \<le> now - window_size s) \<longrightarrow>
      request_history (cleanup_window s user_id now) user_id = None"
    by (simp add: history_cleanup evict_all_expired)
  have p4: "request_history s user_id = None \<longrightarrow>
      can_send_message s user_id t = (True, s) \<and>
      time_until_next_allowed s user_id t = (Inr 0, s) \<and>
      record_message s user_id t1 t2 =
        (True, s\<lparr>request_history := (request_history s)(user_id \<mapsto> [t2])\<rparr>)"
    by (simp add: can_send_message_def time_until_next_allowed_def record_message_def
        cleanup_absent Let_def)
  have f: "request_history (new_limiter (window_size s) (max_requests s)) user_id = None"
    by (simp add: new_limiter_def)
  have p5: "request_history s user_id = None \<longrightarrow>
      fst (can_send_message s user_id t) =
        fst (can_send_message (new_limiter (window_size s) (max_requests s)) user_id t) \<and>
      fst (time_until_next_allowed s user_id t) =
        fst (time_until_next_allowed (new_limiter (window_size s) (max_requests s)) user_id t) \<and>
      fst (record_message s user_id t1 t2) =
        fst (record_message (new_limiter (window_size s) (max_requests s)) user_id t1 t2) \<and>
      log_of (snd (record_message s user_id t1 t2)) user_id =
        log_of (snd (record_message (new_limiter (window_size s) (max_requests s)) user_id t1 t2))
          user_id"
    using f
    by (simp add: can_send_message_def time_until_next_allowed_def record_message_def
        cleanup_absent Let_def log_of_def)
  from p1 p2 p3 p4 p5 show ?thesis by blast
qed

theorem key_present_iff_log_nonempty_witness:
  "log_of (run (new_limiter 10 1) [Record ''A'' 0 0]) ''A'' = [0] \<and>
   request_history (cleanup_window (run (new_limiter 10 1) [Record ''A'' 0 0]) ''A'' 10) ''A''
     = None \<and>
   can_send_message (cleanup_window (run (new_limiter 10 1) [Record ''A'' 0 0]) ''A'' 10) ''A'' 11
     = (True, cleanup_window (run (new_limiter 10 1) [Record ''A'' 0 0]) ''A'' 10) \<and>
   time_until_next_allowed
       (cleanup_window (run (new_limiter 10 1) [Record ''A'' 0 0]) ''A'' 10) ''A'' 11
     = (Inr 0, cleanup_window (run (new_limiter 10 1) [Record ''A'' 0 0]) ''A'' 10) \<and>
   (''A'' \<in> dom (request_history
       (step (run (new_limiter 10 1) [Record ''A'' 0 0]) (CanSend ''A'' 10)))) =
     (log_of (step (run (new_limiter 10 1) [Record ''A'' 0 0]) (CanSend ''A'' 10)) ''A'' \<noteq> [])"
proof -
  let ?s = "run (new_limiter 10 1) [Record ''A'' 0 0]"
  let ?s' = "cleanup_window ?s ''A'' 10"
  have l: "log_of ?s ''A'' = [0]"
    by (simp add: run_def record_message_def can_send_message_def cleanup_window_def
        new_limiter_def log_of_def Let_def)
  have w: "window_size ?s = 10" by (simp add: new_limiter_def)
  have h3: "\<forall>t\<in>set (log_of ?s ''A''). t \<le> 10 - window_size ?s"
    unfolding l w by simp
  have gone: "request_history ?s' ''A'' = None"
    using key_present_iff_log_nonempty [where s = ?s and user_id = "''A''" and now = 10] h3
    by blast
  have fresh: "can_send_message ?s' ''A'' 11 = (True, ?s') \<and>
               time_until_next_allowed ?s' ''A'' 11 = (Inr 0, ?s')"
    using key_present_iff_log_nonempty [where s = ?s' and user_id = "''A''" and t = 11] gone
    by blast
  have h2: "\<forall>k. (k \<in> dom (request_history ?s)) = (log_of ?s k \<noteq> [])"
    using key_present_iff_log_nonempty [where w = 10 and n = 1 and calls = "[Record ''A'' 0 0]"]
    by blast
  have kept: "\<forall>k. (k \<in> dom (request_history (step ?s (CanSend ''A'' 10)))) =
                  (log_of (step ?s (CanSend ''A'' 10)) k \<noteq> [])"
    using key_present_iff_log_nonempty [where s = ?s and c = "CanSend ''A'' 10"] h2
    by blast
  from l gone fresh kept show ?thesis by blast
qed

section \<open>Repeated queries\<close>

text \<open>
  C9 does not hold of the code: in the state after \<open>record_message\<close> for user A at time
  0 (window 10, one request), \<open>time_until_next_allowed\<close> for A at time 10 raises
  \<open>KeyError\<close>, and the same call repeated at the same instant returns 0; after a
  \<open>can_send_message\<close> at that instant it returns 0 as well, where without it the call
  raises.
\<close>

theorem time_until_next_allowed_not_idempotent:
  "fst (time_until_next_allowed (run (new_limiter 10 1) [Record ''A'' 0 0]) ''A'' 10)
     = Inl KeyError \<and>
   fst (time_until_next_allowed
          (snd (time_until_next_allowed (run (new_limiter 10 1) [Record ''A'' 0 0]) ''A'' 10))
          ''A'' 10)
     = Inr 0 \<and>
   fst (time_until_next_allowed
          (snd (can_send_message (run (new_limiter 10 1) [Record ''A'' 0 0]) ''A'' 10))
          ''A'' 10)
     = Inr 0"
  by (simp add: run_def record_message_def can_send_message_def cleanup_window_def
      time_until_next_allowed_def new_limiter_def Let_def)

end
